theory Spec2Isabelle
  imports Main "HOL-Library.Word" "HOL-Library.Mapping" "HOL-Library.AList_Mapping"
begin

section \<open>Data model of TSP.cpp\<close>

text \<open>
  \<^verbatim>\<open>size_t\<close> is an unsigned 64-bit integer: addition wraps around, \<open>-1\<close> is
  \<^verbatim>\<open>std::numeric_limits<size_t>::max()\<close>, and \<open><\<close> is the unsigned comparison.
\<close>

type_synonym size_t = "64 word"

text \<open>
  \<^verbatim>\<open>Node\<close> is declared in the header: an identifier and two coordinates, built by
  \<^verbatim>\<open>Node(ID, x, y)\<close>. The coordinates are \<^verbatim>\<open>double\<close>s; TSP.cpp never computes
  with them (it only copies nodes and calls \<^verbatim>\<open>Node::distance\<close>), so their type is
  left as the parameter \<open>'c\<close>. The field \<^verbatim>\<open>id\<close> is named \<open>id_n\<close> here, since
  \<open>id\<close> is the identity function of HOL.
\<close>

record 'c Node =
  id_n :: size_t
  x :: 'c
  y :: 'c

text \<open>
  \<^verbatim>\<open>Node::distance\<close> is defined in the header, which is not part of the sources at
  hand. It is a parameter \<open>d\<close> of every function that calls it; \<open>d a b\<close> is the
  \<^verbatim>\<open>size_t\<close> that \<^verbatim>\<open>a.distance(b)\<close> leaves in the \<^verbatim>\<open>size_t\<close> variable it is
  assigned to.
\<close>

type_synonym 'c distance = "'c Node \<Rightarrow> 'c Node \<Rightarrow> size_t"

record 'c Tour =
  path :: "'c Node list"
  weights :: "size_t list"
  total_distance :: size_t

text \<open>
  Modelled from the spec: the declaration of \<^verbatim>\<open>TSP::Tour\<close> and its default constructor
  are in the missing header TSP.hpp. The specification initialises a tour with an empty
  path, no weights and \<open>total_distance = 0\<close>.
\<close>

definition Tour_default :: "'c Tour" where
  "Tour_default = \<lparr>path = [], weights = [], total_distance = 0\<rparr>"

text \<open>
  What a call can end in other than a value. \<open>FileAccessError\<close> is the
  \<^verbatim>\<open>std::runtime_error\<close> thrown by \<^verbatim>\<open>constructCities\<close>; \<open>UndefinedBehaviour\<close> marks
  an operation that C++ leaves undefined (dereferencing the end iterator of an empty
  list). \<open>EmptyCollection\<close> and \<open>InvalidStartIdentifier\<close> are the error kinds named by
  the specification; no statement of TSP.cpp raises them. A call that does not return
  at all is the value \<open>None\<close> of the enclosing option type.
\<close>

datatype failure =
  FileAccessError | UndefinedBehaviour | EmptyCollection | InvalidStartIdentifier

section \<open>The visited map\<close>

text \<open>
  \<^verbatim>\<open>std::unordered_map<size_t, bool>\<close>. \<^verbatim>\<open>visited.find(k) == visited.end()\<close> is
  \<open>Mapping.lookup visited k = None\<close>, \<^verbatim>\<open>visited.size()\<close> is \<open>Mapping.size\<close> and the
  assignment \<^verbatim>\<open>visited[k] = v\<close> is \<open>Mapping.update k v\<close>. Merely evaluating
  \<^verbatim>\<open>visited[k]\<close> inserts the value-initialised \<^verbatim>\<open>false\<close> when the key is absent and
  leaves the map alone otherwise.
\<close>

type_synonym visited_map = "(size_t, bool) mapping"

definition subscript :: "visited_map \<Rightarrow> size_t \<Rightarrow> visited_map" where
  "subscript m k = (case Mapping.lookup m k of None \<Rightarrow> Mapping.update k False m | Some _ \<Rightarrow> m)"

section \<open>TSP::getStartCity\<close>

text \<open>The loop over the list: the first node whose id is the requested one.\<close>

fun find_start :: "'c Node list \<Rightarrow> size_t \<Rightarrow> 'c Node option" where
  "find_start [] start_id = None"
| "find_start (c # cs) start_id = (if id_n c = start_id then Some c else find_start cs start_id)"

text \<open>
  After the loop the function returns \<^verbatim>\<open>*cities.begin()\<close>, which is undefined for an
  empty list.
\<close>

definition getStartCity :: "'c Node list \<Rightarrow> size_t \<Rightarrow> failure + 'c Node" where
  "getStartCity cities start_id =
     (case find_start cities start_id of
        Some c \<Rightarrow> Inr c
      | None \<Rightarrow> (case cities of [] \<Rightarrow> Inl UndefinedBehaviour | c # _ \<Rightarrow> Inr c))"

section \<open>TSP::nearestNeighbor\<close>

text \<open>
  The inner \<^verbatim>\<open>for\<close> loop: one pass over the cities, carrying \<^verbatim>\<open>nextCity\<close> and
  \<^verbatim>\<open>minDist\<close>. \<open>cur\<close> is the variable \<^verbatim>\<open>startCity\<close>, the current end of the path.
\<close>

fun scan :: "'c distance \<Rightarrow> visited_map \<Rightarrow> 'c Node \<Rightarrow> 'c Node list \<Rightarrow> 'c Node \<times> size_t
    \<Rightarrow> 'c Node \<times> size_t" where
  "scan d visited cur [] (nextCity, minDist) = (nextCity, minDist)"
| "scan d visited cur (c # cs) (nextCity, minDist) =
     (if Mapping.lookup visited (id_n c) = None then
        (let temp = d cur c in
         if temp < minDist then scan d visited cur cs (c, temp)
         else scan d visited cur cs (nextCity, minDist))
      else scan d visited cur cs (nextCity, minDist))"

text \<open>The variables that the \<^verbatim>\<open>while\<close> loop changes.\<close>

record 'c loop_state =
  tour :: "'c Tour"
  visited :: visited_map
  startCity :: "'c Node"

definition loop_cond :: "'c Node list \<Rightarrow> 'c loop_state \<Rightarrow> bool" where
  "loop_cond cities s \<longleftrightarrow> Mapping.size (visited s) < length cities"

text \<open>One execution of the body of the \<^verbatim>\<open>while\<close> loop.\<close>

definition loop_body :: "'c distance \<Rightarrow> 'c Node list \<Rightarrow> 'c loop_state \<Rightarrow> 'c loop_state" where
  "loop_body d cities s =
     (case scan d (visited s) (startCity s) cities (startCity s, - 1) of
        (nextCity, minDist) \<Rightarrow>
          \<lparr>tour = (tour s)\<lparr>path := path (tour s) @ [nextCity],
                           weights := weights (tour s) @ [minDist],
                           total_distance := total_distance (tour s) + minDist\<rparr>,
           visited = Mapping.update (id_n nextCity) True (visited s),
           startCity = nextCity\<rparr>)"

text \<open>
  The \<^verbatim>\<open>while\<close> loop. Nothing in the code bounds the number of iterations, so the
  loop is a partial function: \<open>None\<close> when it runs forever.
\<close>

partial_function (option) greedy_loop ::
  "'c distance \<Rightarrow> 'c Node list \<Rightarrow> 'c loop_state \<Rightarrow> 'c loop_state option" where
  "greedy_loop d cities s =
     (if loop_cond cities s then greedy_loop d cities (loop_body d cities s) else Some s)"

declare greedy_loop.simps [code]

text \<open>The state in which the loop is entered, for a resolved start city.\<close>

definition loop_init :: "'c Node \<Rightarrow> 'c loop_state" where
  "loop_init c =
     \<lparr>tour = Tour_default\<lparr>path := [c], weights := [0]\<rparr>,
      visited = subscript Mapping.empty (id_n c),
      startCity = c\<rparr>"

text \<open>
  The closing step after the loop. \<^verbatim>\<open>tour.path.front()\<close> is undefined on an empty
  vector.
\<close>

definition close_tour :: "'c distance \<Rightarrow> 'c loop_state \<Rightarrow> failure + 'c Tour" where
  "close_tour d s =
     (case path (tour s) of
        [] \<Rightarrow> Inl UndefinedBehaviour
      | front # _ \<Rightarrow>
          (let backToStartDist = d (startCity s) front in
           Inr ((tour s)\<lparr>weights := weights (tour s) @ [backToStartDist],
                        path := path (tour s) @ [front],
                        total_distance := total_distance (tour s) + backToStartDist\<rparr>)))"

definition nearestNeighbor ::
  "'c distance \<Rightarrow> 'c Node list \<Rightarrow> size_t \<Rightarrow> (failure + 'c Tour) option" where
  "nearestNeighbor d cities start_id =
     (case getStartCity cities start_id of
        Inl e \<Rightarrow> Some (Inl e)
      | Inr c \<Rightarrow>
          (case greedy_loop d cities (loop_init c) of
             None \<Rightarrow> None
           | Some s \<Rightarrow> Some (close_tour d s)))"

section \<open>TSP::constructCities\<close>

text \<open>
  The \<^verbatim>\<open>std::ifstream\<close>, as far as the function observes it: the characters not
  yet read and the two state bits it tests. \<^verbatim>\<open>fin.eof()\<close> is \<open>eofbit\<close>,
  \<^verbatim>\<open>fin.fail()\<close> and \<^verbatim>\<open>!fin\<close> are \<open>failbit\<close>; the stream is good when neither
  is set. A file that cannot be opened is \<open>None\<close>, one that can is \<open>Some\<close> of its
  content.
\<close>

record ifstream =
  buf :: string
  eofbit :: bool
  failbit :: bool

definition open_file :: "string \<Rightarrow> ifstream" where
  "open_file content = \<lparr>buf = content, eofbit = False, failbit = False\<rparr>"

definition newline :: char where
  "newline = CHR 0x0A"

text \<open>
  \<^verbatim>\<open>std::getline(fin, line)\<close>. On a stream that is not good the sentry sets
  \<open>failbit\<close> and the string is left as it was. Otherwise the string is erased and
  filled with the characters up to the next newline, which is consumed and not stored;
  when the end of the file comes first, \<open>eofbit\<close> is set, and \<open>failbit\<close> too if no
  character was extracted.
\<close>

definition getline :: "ifstream \<Rightarrow> string \<Rightarrow> ifstream \<times> string" where
  "getline fin line =
     (if eofbit fin \<or> failbit fin then (fin\<lparr>failbit := True\<rparr>, line)
      else
        (let str = takeWhile (\<lambda>c. c \<noteq> newline) (buf fin);
             rest = dropWhile (\<lambda>c. c \<noteq> newline) (buf fin)
         in case rest of
              [] \<Rightarrow> (fin\<lparr>buf := [], eofbit := True, failbit := (str = [])\<rparr>, str)
            | _ # after \<Rightarrow> (fin\<lparr>buf := after\<rparr>, str)))"

text \<open>
  \<^verbatim>\<open>line.find(str)\<close>: the position of the first occurrence of \<open>str\<close> in \<open>line\<close>,
  or \<^verbatim>\<open>npos\<close>, which is \<open>None\<close> here. \<open>find_at\<close> searches from position \<open>i\<close> on.
\<close>

fun find_at :: "nat \<Rightarrow> string \<Rightarrow> string \<Rightarrow> nat option" where
  "find_at i [] str = (if str = [] then Some i else None)"
| "find_at i (c # cs) str =
     (if take (length str) (c # cs) = str then Some i else find_at (Suc i) cs str)"

definition find_str :: "string \<Rightarrow> string \<Rightarrow> nat option" where
  "find_str line str = find_at 0 line str"

text \<open>
  The condition of the \<^verbatim>\<open>do\<close> loop is the position itself, converted to \<^verbatim>\<open>bool\<close>:
  true for every value but 0, and \<^verbatim>\<open>npos\<close> is not 0.
\<close>

definition keep_skipping :: "string \<Rightarrow> bool" where
  "keep_skipping line \<longleftrightarrow> find_str line ''NODE_COORD_SECTION'' \<noteq> Some 0"

text \<open>
  \<^verbatim>\<open>do { std::getline(fin, line); } while (line.find("NODE_COORD_SECTION"));\<close>
  The loop has no other exit, so it is a partial function.
\<close>

partial_function (option) skip_metadata :: "ifstream \<Rightarrow> string \<Rightarrow> (ifstream \<times> string) option" where
  "skip_metadata fin line =
     (if keep_skipping (snd (getline fin line))
      then skip_metadata (fst (getline fin line)) (snd (getline fin line))
      else Some (getline fin line))"

declare skip_metadata.simps [code]

text \<open>
  Formatted input, \<^verbatim>\<open>fin >> v\<close>. The sentry sets \<open>failbit\<close> on a stream that is not
  good; otherwise it skips whitespace, and sets \<open>eofbit\<close> and \<open>failbit\<close> when nothing
  but whitespace is left. Then the number is read by the \<^verbatim>\<open>num_get\<close> facet of the
  standard library, which is the parameter \<open>get\<close>: from the characters at hand it
  gives the value, or \<open>None\<close> when they do not start with a number of the wanted
  type, and the characters it leaves unread. \<open>eofbit\<close> is set when it read up to the
  end of the file, \<open>failbit\<close> when there was no value.
\<close>

type_synonym 'v num_get = "string \<Rightarrow> 'v option \<times> string"

definition isspace :: "char \<Rightarrow> bool" where
  "isspace c \<longleftrightarrow> c \<in> set [CHR 0x20, CHR 0x09, CHR 0x0A, CHR 0x0B, CHR 0x0C, CHR 0x0D]"

definition extraction :: "'v num_get \<Rightarrow> ifstream \<Rightarrow> ifstream \<times> 'v option" where
  "extraction get fin =
     (if eofbit fin \<or> failbit fin then (fin\<lparr>failbit := True\<rparr>, None)
      else
        (let b = dropWhile isspace (buf fin) in
         if b = [] then (fin\<lparr>buf := [], eofbit := True, failbit := True\<rparr>, None)
         else
           (case get b of
              (v, rest) \<Rightarrow> (fin\<lparr>buf := rest, eofbit := (rest = []), failbit := (v = None)\<rparr>, v))))"

text \<open>
  \<^verbatim>\<open>fin >> ID >> x >> y\<close>, and the test of the resulting stream. The node is built
  only when the stream has not failed.
\<close>

definition extract_node ::
  "size_t num_get \<Rightarrow> 'c num_get \<Rightarrow> ifstream \<Rightarrow> ifstream \<times> 'c Node option" where
  "extract_node get_id get_coord fin =
     (case extraction get_id fin of
        (fin1, ID) \<Rightarrow>
          (case extraction get_coord fin1 of
             (fin2, x') \<Rightarrow>
               (case extraction get_coord fin2 of
                  (fin3, y') \<Rightarrow>
                    (fin3,
                     if failbit fin3 then None
                     else (case (ID, x', y') of
                             (Some i, Some a, Some b) \<Rightarrow> Some \<lparr>id_n = i, x = a, y = b\<rparr>
                           | _ \<Rightarrow> None)))))"

text \<open>
  \<^verbatim>\<open>while (!fin.eof()) { if (!(fin >> ID >> x >> y)) break; cities.push_back(...); }\<close>
\<close>

partial_function (option) read_nodes ::
  "size_t num_get \<Rightarrow> 'c num_get \<Rightarrow> ifstream \<Rightarrow> 'c Node list \<Rightarrow> 'c Node list option" where
  "read_nodes get_id get_coord fin cities =
     (if eofbit fin then Some cities
      else if snd (extract_node get_id get_coord fin) = None then Some cities
      else read_nodes get_id get_coord (fst (extract_node get_id get_coord fin))
             (cities @ [the (snd (extract_node get_id get_coord fin))]))"

declare read_nodes.simps [code]

definition constructCities ::
  "size_t num_get \<Rightarrow> 'c num_get \<Rightarrow> string option \<Rightarrow> (failure + 'c Node list) option" where
  "constructCities get_id get_coord file =
     (case file of
        None \<Rightarrow> Some (Inl FileAccessError)
      | Some content \<Rightarrow>
          (case skip_metadata (open_file content) [] of
             None \<Rightarrow> None
           | Some (fin, line) \<Rightarrow>
               (case read_nodes get_id get_coord fin [] of
                  None \<Rightarrow> None
                | Some cities \<Rightarrow> Some (Inr cities))))"

section \<open>Notions used in the statements\<close>

text \<open>A city counts as unvisited when its id is not a key of the map.\<close>

definition unvisited :: "visited_map \<Rightarrow> 'c Node \<Rightarrow> bool" where
  "unvisited v c \<longleftrightarrow> Mapping.lookup v (id_n c) = None"

text \<open>
  The states the \<^verbatim>\<open>while\<close> loop passes through when it is entered with start city
  \<open>c0\<close>: the state at loop entry, and the state after the body whenever the loop
  condition held.
\<close>

inductive reachable :: "'c distance \<Rightarrow> 'c Node list \<Rightarrow> 'c Node \<Rightarrow> 'c loop_state \<Rightarrow> bool"
  for d cities c0 where
  init: "reachable d cities c0 (loop_init c0)"
| step: "reachable d cities c0 s \<Longrightarrow> loop_cond cities s \<Longrightarrow>
         reachable d cities c0 (loop_body d cities s)"

text \<open>The invariant of the \<^verbatim>\<open>while\<close> loop.\<close>

definition loop_inv :: "'c Node list \<Rightarrow> 'c Node \<Rightarrow> 'c loop_state \<Rightarrow> bool" where
  "loop_inv cities c0 s \<longleftrightarrow>
     path (tour s) \<noteq> [] \<and> hd (path (tour s)) = c0 \<and> last (path (tour s)) = startCity s \<and>
     set (path (tour s)) \<subseteq> set cities \<and> distinct (map id_n (path (tour s))) \<and>
     Mapping.keys (visited s) = id_n ` set (path (tour s)) \<and>
     Mapping.lookup (visited s) (id_n c0) = Some False"

definition tour_inv :: "'c loop_state \<Rightarrow> bool" where
  "tour_inv s \<longleftrightarrow>
     length (weights (tour s)) = length (path (tour s)) \<and>
     weights (tour s) \<noteq> [] \<and> hd (weights (tour s)) = 0 \<and>
     total_distance (tour s) = sum_list (weights (tour s))"

text \<open>
  An iteration can advance when some unvisited city lies nearer to the current city
  than \<^verbatim>\<open>numeric_limits<size_t>::max()\<close>, the value \<^verbatim>\<open>minDist\<close> starts from: only then
  does the strict comparison of the scan select a city.
\<close>

definition can_advance :: "'c distance \<Rightarrow> 'c Node list \<Rightarrow> 'c loop_state \<Rightarrow> bool" where
  "can_advance d cities s \<longleftrightarrow>
     (\<exists>c\<in>set cities. unvisited (visited s) c \<and> d (startCity s) c \<noteq> - 1)"

text \<open>The states reached through iterations that could all advance.\<close>

inductive advancing :: "'c distance \<Rightarrow> 'c Node list \<Rightarrow> 'c Node \<Rightarrow> 'c loop_state \<Rightarrow> bool"
  for d cities c0 where
  start: "advancing d cities c0 (loop_init c0)"
| advance: "advancing d cities c0 s \<Longrightarrow> loop_cond cities s \<Longrightarrow> can_advance d cities s \<Longrightarrow>
         advancing d cities c0 (loop_body d cities s)"

section \<open>An example collection\<close>

text \<open>
  The three points of the scenario in the specification, A(0,0), B(0,3), C(4,0), with
  integer coordinates, and a distance for them: the Euclidean distance rounded down.
\<close>

definition ex_A :: "int Node" where "ex_A = \<lparr>id_n = 1, x = 0, y = 0\<rparr>"
definition ex_B :: "int Node" where "ex_B = \<lparr>id_n = 2, x = 0, y = 3\<rparr>"
definition ex_C :: "int Node" where "ex_C = \<lparr>id_n = 3, x = 4, y = 0\<rparr>"

fun floor_sqrt_below :: "nat \<Rightarrow> nat \<Rightarrow> nat" where
  "floor_sqrt_below n 0 = 0"
| "floor_sqrt_below n (Suc k) = (if Suc k * Suc k \<le> n then Suc k else floor_sqrt_below n k)"

definition ex_distance :: "int distance" where
  "ex_distance a b =
     (let n = nat ((x a - x b) * (x a - x b) + (y a - y b) * (y a - y b))
      in of_nat (floor_sqrt_below n n))"

definition ex_cities :: "int Node list" where
  "ex_cities = [ex_A, ex_B, ex_C]"



section \<open>Notions used in the statements about files\<close>

definition marker :: string where
  "marker = ''NODE_COORD_SECTION''"

text \<open>A line begins with a given string.\<close>

definition starts_with :: "string \<Rightarrow> string \<Rightarrow> bool" where
  "starts_with str line \<longleftrightarrow> take (length str) line = str"

text \<open>The text of a sequence of lines, each ended by a newline.\<close>

definition unlines :: "string list \<Rightarrow> string" where
  "unlines ls = concat (map (\<lambda>l. l @ [newline]) ls)"

text \<open>
  The reading of the node section in the words of the specification: a field is
  optional whitespace followed by a number; a record is three fields, an identifier
  and two coordinates; the records of a text are read one after the other until a
  record fails to parse, which includes the end of the text.
\<close>

definition field :: "'v num_get \<Rightarrow> string \<Rightarrow> ('v \<times> string) option" where
  "field get b =
     (let b' = dropWhile isspace b in
      if b' = [] then None
      else (case get b' of (None, _) \<Rightarrow> None | (Some v, rest) \<Rightarrow> Some (v, rest)))"

definition triple :: "size_t num_get \<Rightarrow> 'c num_get \<Rightarrow> string \<Rightarrow> ('c Node \<times> string) option" where
  "triple get_id get_coord b =
     (case field get_id b of
        None \<Rightarrow> None
      | Some (i, r1) \<Rightarrow>
          (case field get_coord r1 of
             None \<Rightarrow> None
           | Some (a, r2) \<Rightarrow>
               (case field get_coord r2 of
                  None \<Rightarrow> None
                | Some (b', r3) \<Rightarrow> Some (\<lparr>id_n = i, x = a, y = b'\<rparr>, r3))))"

inductive records :: "size_t num_get \<Rightarrow> 'c num_get \<Rightarrow> string \<Rightarrow> 'c Node list \<Rightarrow> bool"
  for get_id get_coord where
  none_left: "triple get_id get_coord b = None \<Longrightarrow> records get_id get_coord b []"
| one_more: "triple get_id get_coord b = Some (n, rest) \<Longrightarrow> records get_id get_coord rest ns \<Longrightarrow>
         records get_id get_coord b (n # ns)"

text \<open>A successful conversion consumes at least one character.\<close>

definition consuming :: "'v num_get \<Rightarrow> bool" where
  "consuming get \<longleftrightarrow> (\<forall>b v rest. get b = (Some v, rest) \<longrightarrow> length rest < length b)"

section \<open>Example files\<close>

text \<open>
  A conversion for the examples: a non-empty run of decimal digits, read as a number.
  It stands in for \<^verbatim>\<open>num_get\<close> on the inputs used below, which hold nothing else.
\<close>

definition ex_digits :: "string \<Rightarrow> nat option \<times> string" where
  "ex_digits b =
     (let ds = takeWhile (\<lambda>c. c \<in> set ''0123456789'') b in
      if ds = [] then (None, b)
      else (Some (foldl (\<lambda>n c. 10 * n + (of_char c - 48)) 0 ds),
            dropWhile (\<lambda>c. c \<in> set ''0123456789'') b))"

definition ex_get_id :: "size_t num_get" where
  "ex_get_id b = (case ex_digits b of (v, r) \<Rightarrow> (map_option of_nat v, r))"

definition ex_get_coord :: "int num_get" where
  "ex_get_coord b = (case ex_digits b of (v, r) \<Rightarrow> (map_option int v, r))"

text \<open>
  A file in the expected format. The second record is spread over two lines, and the
  line \<^verbatim>\<open>EOF\<close> ends the reading.
\<close>

definition ex_file :: string where
  "ex_file = unlines [''NAME: three'', ''NODE_COORD_SECTION'', ''1 0 0'', ''2 0'', ''3'',
     ''3 4 0'', ''EOF'']"

text \<open>A file without the marker, and one whose marker is not at the start of its line.\<close>

definition ex_file_no_marker :: string where
  "ex_file_no_marker = unlines [''NAME: three'', ''1 0 0'']"

definition ex_file_indented :: string where
  "ex_file_indented = unlines ['' NODE_COORD_SECTION'', ''1 0 0'']"

section \<open>The inner scan\<close>

lemma unvisited_keys: "unvisited v c \<longleftrightarrow> id_n c \<notin> Mapping.keys v"
  by (simp add: unvisited_def keys_dom_lookup domIff)

lemma scan_result:
  "scan d v cur cs (n0, m0) = (n, m) \<Longrightarrow>
     (n = n0 \<and> m = m0 \<and> (\<forall>c\<in>set cs. unvisited v c \<longrightarrow> \<not> d cur c < m0)) \<or>
     (\<exists>pre post. cs = pre @ n # post \<and> unvisited v n \<and> m = d cur n \<and> m < m0 \<and>
        (\<forall>c\<in>set pre. unvisited v c \<longrightarrow> m < d cur c) \<and>
        (\<forall>c\<in>set post. unvisited v c \<longrightarrow> m \<le> d cur c))"
proof (induction cs arbitrary: n0 m0)
  case Nil
  then show ?case by simp
next
  case (Cons c cs)
  show ?case
  proof (cases "unvisited v c \<and> d cur c < m0")
    case True
    with Cons.prems have run: "scan d v cur cs (c, d cur c) = (n, m)"
      by (simp add: unvisited_def Let_def)
    from Cons.IH [OF run] show ?thesis
    proof (elim disjE conjE exE)
      assume "n = c" "m = d cur c" "\<forall>c'\<in>set cs. unvisited v c' \<longrightarrow> \<not> d cur c' < d cur c"
      with True have "c # cs = [] @ n # cs \<and> unvisited v n \<and> m = d cur n \<and> m < m0 \<and>
        (\<forall>c\<in>set []. unvisited v c \<longrightarrow> m < d cur c) \<and>
        (\<forall>c\<in>set cs. unvisited v c \<longrightarrow> m \<le> d cur c)"
        by (auto simp: not_less)
      then show ?thesis by blast
    next
      fix pre post
      assume "cs = pre @ n # post" "unvisited v n" "m = d cur n" "m < d cur c"
        "\<forall>c\<in>set pre. unvisited v c \<longrightarrow> m < d cur c"
        "\<forall>c\<in>set post. unvisited v c \<longrightarrow> m \<le> d cur c"
      with True have "c # cs = (c # pre) @ n # post \<and> unvisited v n \<and> m = d cur n \<and> m < m0 \<and>
        (\<forall>c\<in>set (c # pre). unvisited v c \<longrightarrow> m < d cur c) \<and>
        (\<forall>c\<in>set post. unvisited v c \<longrightarrow> m \<le> d cur c)"
        by auto
      then show ?thesis by blast
    qed
  next
    case False
    with Cons.prems have run: "scan d v cur cs (n0, m0) = (n, m)"
      by (auto simp: unvisited_def Let_def split: if_splits)
    from Cons.IH [OF run] show ?thesis
    proof (elim disjE conjE exE)
      assume "n = n0" "m = m0" "\<forall>c'\<in>set cs. unvisited v c' \<longrightarrow> \<not> d cur c' < m0"
      with False show ?thesis by auto
    next
      fix pre post
      assume "cs = pre @ n # post" "unvisited v n" "m = d cur n" "m < m0"
        "\<forall>c\<in>set pre. unvisited v c \<longrightarrow> m < d cur c"
        "\<forall>c\<in>set post. unvisited v c \<longrightarrow> m \<le> d cur c"
      with False have "c # cs = (c # pre) @ n # post \<and> unvisited v n \<and> m = d cur n \<and> m < m0 \<and>
        (\<forall>c\<in>set (c # pre). unvisited v c \<longrightarrow> m < d cur c) \<and>
        (\<forall>c\<in>set post. unvisited v c \<longrightarrow> m \<le> d cur c)"
        by auto
      then show ?thesis by blast
    qed
  qed
qed

lemma scan_finds:
  assumes "scan d v cur cs (n0, - 1) = (n, m)"
    and "c \<in> set cs" "unvisited v c" "d cur c \<noteq> - 1"
  shows "\<exists>pre post. cs = pre @ n # post \<and> unvisited v n \<and> m = d cur n \<and> m \<noteq> - 1 \<and>
        (\<forall>c\<in>set pre. unvisited v c \<longrightarrow> m < d cur c) \<and>
        (\<forall>c\<in>set post. unvisited v c \<longrightarrow> m \<le> d cur c)"
proof -
  have "d cur c < - 1"
    using assms(4) by (simp add: word_order.not_eq_extremum)
  with assms(2,3) have "\<not> (\<forall>c\<in>set cs. unvisited v c \<longrightarrow> \<not> d cur c < - 1)"
    by blast
  with scan_result [OF assms(1)] show ?thesis
    by (auto simp: word_order.not_eq_extremum)
qed

section \<open>The loop invariant\<close>

lemma tour_inv_init: "tour_inv (loop_init c)"
  by (simp add: tour_inv_def loop_init_def Tour_default_def)

lemma tour_inv_body: "tour_inv s \<Longrightarrow> tour_inv (loop_body d cities s)"
  by (auto simp: tour_inv_def loop_body_def split: prod.splits)

lemma loop_inv_init: "c0 \<in> set cities \<Longrightarrow> loop_inv cities c0 (loop_init c0)"
  by (simp add: loop_inv_def loop_init_def Tour_default_def subscript_def)


lemma exists_unvisited:
  assumes inv: "loop_inv cities c0 s" and cond: "loop_cond cities s"
    and dist: "distinct (map id_n cities)"
  shows "\<exists>c\<in>set cities. unvisited (visited s) c"
proof (rule ccontr)
  assume "\<not> ?thesis"
  then have "set (map id_n cities) \<subseteq> Mapping.keys (visited s)"
    by (auto simp: unvisited_keys)
  moreover from inv have "finite (Mapping.keys (visited s))"
    by (simp add: loop_inv_def)
  ultimately have "card (set (map id_n cities)) \<le> Mapping.size (visited s)"
    by (simp add: Mapping.size_def card_mono)
  with dist have "length cities \<le> Mapping.size (visited s)"
    by (simp add: distinct_card del: set_map)
  with cond show False by (simp add: loop_cond_def)
qed

text \<open>What one iteration does, in any state that still has a reachable unvisited city.\<close>

lemma loop_body_selects:
  assumes "c \<in> set cities" "unvisited (visited s) c" "d (startCity s) c \<noteq> - 1"
  shows "\<exists>pre n post. cities = pre @ n # post \<and> unvisited (visited s) n \<and>
      d (startCity s) n \<noteq> - 1 \<and>
      (\<forall>c\<in>set pre. unvisited (visited s) c \<longrightarrow> d (startCity s) n < d (startCity s) c) \<and>
      (\<forall>c\<in>set post. unvisited (visited s) c \<longrightarrow> d (startCity s) n \<le> d (startCity s) c) \<and>
      loop_body d cities s =
        \<lparr>tour = \<lparr>path = path (tour s) @ [n],
                 weights = weights (tour s) @ [d (startCity s) n],
                 total_distance = total_distance (tour s) + d (startCity s) n\<rparr>,
         visited = Mapping.update (id_n n) True (visited s),
         startCity = n\<rparr>"
proof -
  obtain n m where run: "scan d (visited s) (startCity s) cities (startCity s, - 1) = (n, m)"
    by (cases "scan d (visited s) (startCity s) cities (startCity s, - 1)")
  from scan_finds [OF run assms] obtain pre post where
    "cities = pre @ n # post" "unvisited (visited s) n" "m = d (startCity s) n" "m \<noteq> - 1"
    "\<forall>c\<in>set pre. unvisited (visited s) c \<longrightarrow> m < d (startCity s) c"
    "\<forall>c\<in>set post. unvisited (visited s) c \<longrightarrow> m \<le> d (startCity s) c"
    by blast
  moreover from run \<open>m = d (startCity s) n\<close> have "loop_body d cities s =
        \<lparr>tour = \<lparr>path = path (tour s) @ [n],
                 weights = weights (tour s) @ [d (startCity s) n],
                 total_distance = total_distance (tour s) + d (startCity s) n\<rparr>,
         visited = Mapping.update (id_n n) True (visited s),
         startCity = n\<rparr>"
    by (simp add: loop_body_def)
  ultimately show ?thesis by blast
qed

lemma loop_inv_body:
  assumes inv: "loop_inv cities c0 s" and cond: "loop_cond cities s"
    and dist: "distinct (map id_n cities)"
    and far: "\<forall>a\<in>set cities. \<forall>b\<in>set cities. d a b \<noteq> - 1"
  shows "loop_inv cities c0 (loop_body d cities s) \<and>
         Mapping.size (visited (loop_body d cities s)) = Suc (Mapping.size (visited s))"
proof -
  from exists_unvisited [OF inv cond dist] obtain c where
    c: "c \<in> set cities" "unvisited (visited s) c" by blast
  from inv have "startCity s \<in> set (path (tour s))"
    unfolding loop_inv_def using last_in_set by metis
  with inv have cur: "startCity s \<in> set cities"
    by (auto simp: loop_inv_def)
  with c far have "d (startCity s) c \<noteq> - 1" by blast
  from loop_body_selects [of c cities s d, OF c this] obtain pre n post where
    n: "cities = pre @ n # post" "unvisited (visited s) n"
    and body: "loop_body d cities s =
        \<lparr>tour = \<lparr>path = path (tour s) @ [n],
                 weights = weights (tour s) @ [d (startCity s) n],
                 total_distance = total_distance (tour s) + d (startCity s) n\<rparr>,
         visited = Mapping.update (id_n n) True (visited s),
         startCity = n\<rparr>"
    by blast
  from n have fresh: "id_n n \<notin> Mapping.keys (visited s)" and "n \<in> set cities"
    by (simp_all add: unvisited_keys)
  from inv have keys: "Mapping.keys (visited s) = id_n ` set (path (tour s))"
    and start: "Mapping.lookup (visited s) (id_n c0) = Some False"
    by (simp_all add: loop_inv_def)
  from start have "id_n c0 \<in> Mapping.keys (visited s)"
    by (simp add: keys_dom_lookup domIff)
  with fresh have "id_n n \<noteq> id_n c0" by auto
  with inv fresh \<open>n \<in> set cities\<close> have "loop_inv cities c0 (loop_body d cities s)"
    unfolding body by (auto simp: loop_inv_def)
  moreover from keys have "finite (Mapping.keys (visited s))" by simp
  with fresh have "Mapping.size (visited (loop_body d cities s)) = Suc (Mapping.size (visited s))"
    unfolding body by (simp add: Mapping.size_def)
  ultimately show ?thesis by blast
qed

lemma reachable_inv:
  assumes "reachable d cities c0 s" "c0 \<in> set cities" "distinct (map id_n cities)"
    "\<forall>a\<in>set cities. \<forall>b\<in>set cities. d a b \<noteq> - 1"
  shows "loop_inv cities c0 s"
  using assms by (induction rule: reachable.induct) (auto simp: loop_inv_init loop_inv_body)

lemma reachable_tour_inv: "reachable d cities c0 s \<Longrightarrow> tour_inv s"
  by (induction rule: reachable.induct) (auto simp: tour_inv_init tour_inv_body)

lemma greedy_loop_returns:
  assumes "reachable d cities c0 s" "c0 \<in> set cities" "distinct (map id_n cities)"
    "\<forall>a\<in>set cities. \<forall>b\<in>set cities. d a b \<noteq> - 1"
  shows "\<exists>s'. greedy_loop d cities s = Some s' \<and> reachable d cities c0 s' \<and> \<not> loop_cond cities s'"
  using assms(1)
proof (induction "length cities - Mapping.size (visited s)" arbitrary: s rule: less_induct)
  case less
  show ?case
  proof (cases "loop_cond cities s")
    case False
    with less.prems show ?thesis
      by (subst greedy_loop.simps) simp
  next
    case True
    from less.prems assms(2-) have "loop_inv cities c0 s" by (rule reachable_inv)
    from loop_inv_body [OF this True assms(3,4)]
    have "Mapping.size (visited (loop_body d cities s)) = Suc (Mapping.size (visited s))"
      by blast
    with True have "length cities - Mapping.size (visited (loop_body d cities s))
        < length cities - Mapping.size (visited s)"
      by (simp add: loop_cond_def)
    moreover from less.prems True have "reachable d cities c0 (loop_body d cities s)"
      by (rule reachable.step)
    ultimately obtain s' where "greedy_loop d cities (loop_body d cities s) = Some s'"
      "reachable d cities c0 s'" "\<not> loop_cond cities s'"
      using less.hyps by blast
    with True show ?thesis
      by (subst greedy_loop.simps) simp
  qed
qed

text \<open>Partial correctness: whatever the loop returns was reached by iterating the body.\<close>

lemma greedy_loop_reachable:
  assumes run: "greedy_loop d cities s = Some s'"
  shows "reachable d cities c0 s \<longrightarrow> reachable d cities c0 s' \<and> \<not> loop_cond cities s'"
proof (rule greedy_loop.raw_induct
        [where P = "\<lambda>d cities s s'. reachable d cities c0 s \<longrightarrow>
                      reachable d cities c0 s' \<and> \<not> loop_cond cities s'", OF _ run],
       goal_cases)
  case (1 f d cities s y)
  show ?case
  proof (cases "loop_cond cities s")
    case True
    with 1(2) have "f d cities (loop_body d cities s) = Some y" by simp
    from 1(1) [OF this] True show ?thesis
      by (blast intro: reachable.step)
  next
    case False
    with 1(2) show ?thesis by simp
  qed
qed


section \<open>Start point resolution and the whole run\<close>

lemma find_start_Some: "find_start cs k = Some c \<Longrightarrow> c \<in> set cs \<and> id_n c = k"
  by (induction cs) (auto split: if_splits)

lemma find_start_None: "find_start cs k = None \<longleftrightarrow> k \<notin> id_n ` set cs"
  by (induction cs) auto

lemma getStartCity_in: "getStartCity cities k = Inr c \<Longrightarrow> c \<in> set cities"
  by (auto simp: getStartCity_def split: option.splits list.splits dest: find_start_Some)

lemma getStartCity_returns: "cities \<noteq> [] \<Longrightarrow> \<exists>c. getStartCity cities k = Inr c"
  by (auto simp: getStartCity_def split: option.splits list.splits)


text \<open>The run of the whole function on a collection with distinct ids.\<close>

lemma nearestNeighbor_run:
  assumes start: "getStartCity cities start_id = Inr c0"
    and dist: "distinct (map id_n cities)"
    and far: "\<forall>a\<in>set cities. \<forall>b\<in>set cities. d a b \<noteq> - 1"
  shows "\<exists>s. greedy_loop d cities (loop_init c0) = Some s \<and> reachable d cities c0 s \<and>
           \<not> loop_cond cities s \<and>
           nearestNeighbor d cities start_id =
             Some (Inr \<lparr>path = path (tour s) @ [c0],
                        weights = weights (tour s) @ [d (startCity s) c0],
                        total_distance = total_distance (tour s) + d (startCity s) c0\<rparr>)"
proof -
  from start have c0: "c0 \<in> set cities" by (rule getStartCity_in)
  from greedy_loop_returns [OF reachable.init c0 dist far]
  obtain s where s: "greedy_loop d cities (loop_init c0) = Some s" "reachable d cities c0 s"
    "\<not> loop_cond cities s" by blast
  from s(2) c0 dist far have "loop_inv cities c0 s" by (rule reachable_inv)
  then obtain ps where "path (tour s) = c0 # ps"
    by (cases "path (tour s)") (auto simp: loop_inv_def)
  with start s have "nearestNeighbor d cities start_id =
             Some (Inr \<lparr>path = path (tour s) @ [c0],
                        weights = weights (tour s) @ [d (startCity s) c0],
                        total_distance = total_distance (tour s) + d (startCity s) c0\<rparr>)"
    by (simp add: nearestNeighbor_def close_tour_def Let_def)
  with s show ?thesis by blast
qed

text \<open>Whatever the function returns comes from a state of the loop.\<close>

lemma nearestNeighbor_Inr:
  assumes "nearestNeighbor d cities start_id = Some (Inr t)"
  shows "\<exists>c0 s front. reachable d cities c0 s \<and> t = (tour s)\<lparr>weights := weights (tour s) @ [d (startCity s) front],
                        path := path (tour s) @ [front],
                        total_distance := total_distance (tour s) + d (startCity s) front\<rparr>"
proof -
  from assms obtain c0 s where "getStartCity cities start_id = Inr c0"
    and loop: "greedy_loop d cities (loop_init c0) = Some s" and t: "close_tour d s = Inr t"
    by (auto simp: nearestNeighbor_def split: sum.splits option.splits)
  from greedy_loop_reachable [OF loop] have "reachable d cities c0 s"
    by (simp add: reachable.init)
  moreover from t obtain front where "t = (tour s)\<lparr>weights := weights (tour s) @ [d (startCity s) front],
                        path := path (tour s) @ [front],
                        total_distance := total_distance (tour s) + d (startCity s) front\<rparr>"
    by (auto simp: close_tour_def Let_def split: list.splits)
  ultimately show ?thesis by blast
qed

section \<open>Iterations that advance\<close>





lemma reachable_advancing:
  assumes "reachable d cities c0 s"
    and "\<And>s. reachable d cities c0 s \<Longrightarrow> loop_cond cities s \<Longrightarrow> can_advance d cities s"
  shows "advancing d cities c0 s"
  using assms(1)
proof (induction rule: reachable.induct)
  case init
  show ?case by (rule advancing.start)
next
  case (step s)
  then show ?case by (auto intro: advancing.advance assms(2))
qed






section \<open>The tour is a closed loop over all points\<close>




section \<open>The greedy choice\<close>




section \<open>Invariants of the returned tour\<close>

lemma unat_sum_list:
  "unat (sum_list (ws :: size_t list)) = sum_list (map unat ws) mod 2 ^ 64"
proof (induction ws)
  case Nil
  then show ?case by simp
next
  case (Cons w ws)
  have "unat (w + sum_list ws) = (unat w + unat (sum_list ws)) mod 2 ^ 64"
    by (simp add: unat_word_ariths)
  also have "\<dots> = (unat w + sum_list (map unat ws)) mod 2 ^ 64"
    by (simp add: Cons.IH mod_add_right_eq)
  finally show ?case by simp
qed

text \<open>
  Claim C3. Every tour that \<^verbatim>\<open>nearestNeighbor\<close> returns has \<open>total_distance\<close> equal
  to the sum of its weights. Both are \<^verbatim>\<open>size_t\<close> values: read as numbers, the total
  is the sum of the weights modulo \<open>2 ^ 64\<close>, so it is the sum itself unless that
  overflows. For a non-empty collection with unique identifiers a tour is returned.
\<close>

theorem total_distance_sum:
  "(\<forall>t. nearestNeighbor d cities start_id = Some (Inr t) \<longrightarrow>
        total_distance t = sum_list (weights t) \<and>
        unat (total_distance t) = sum_list (map unat (weights t)) mod 2 ^ 64) \<and>
   (cities \<noteq> [] \<and> distinct (map id_n cities) \<and>
    (\<forall>a\<in>set cities. \<forall>b\<in>set cities. d a b \<noteq> - 1) \<longrightarrow>
      (\<exists>t. nearestNeighbor d cities start_id = Some (Inr t)))"
proof (intro conjI allI impI)
  fix t
  assume "nearestNeighbor d cities start_id = Some (Inr t)"
  from nearestNeighbor_Inr [OF this] obtain c0 s front where
    "reachable d cities c0 s"
    and t: "t = (tour s)\<lparr>weights := weights (tour s) @ [d (startCity s) front],
                        path := path (tour s) @ [front],
                        total_distance := total_distance (tour s) + d (startCity s) front\<rparr>"
    by blast
  then have "tour_inv s" by (simp add: reachable_tour_inv)
  with t show eq: "total_distance t = sum_list (weights t)"
    by (simp add: tour_inv_def)
  show "unat (total_distance t) = sum_list (map unat (weights t)) mod 2 ^ 64"
    unfolding eq by (rule unat_sum_list)
next
  assume a: "cities \<noteq> [] \<and> distinct (map id_n cities) \<and>
    (\<forall>a\<in>set cities. \<forall>b\<in>set cities. d a b \<noteq> - 1)"
  then obtain c0 where "getStartCity cities start_id = Inr c0"
    using getStartCity_returns by blast
  from nearestNeighbor_run [OF this] a
  show "\<exists>t. nearestNeighbor d cities start_id = Some (Inr t)" by blast
qed

theorem total_distance_sum_witness:
  "(\<exists>t. nearestNeighbor ex_distance ex_cities 1 = Some (Inr t) \<and>
        total_distance t = 12 \<and> sum_list (weights t) = 12)"
proof -
  have h: "ex_cities \<noteq> [] \<and> distinct (map id_n ex_cities) \<and>
    (\<forall>a\<in>set ex_cities. \<forall>b\<in>set ex_cities. ex_distance a b \<noteq> - 1)" by code_simp
  have run: "nearestNeighbor ex_distance ex_cities 1 =
     Some (Inr \<lparr>path = [ex_A, ex_B, ex_C, ex_A], weights = [0, 3, 5, 4], total_distance = 12\<rparr>)"
    by code_simp
  from total_distance_sum [of ex_distance ex_cities 1] h run show ?thesis by simp
qed

text \<open>
  Claim C4. Every tour that \<^verbatim>\<open>nearestNeighbor\<close> returns has as many weights as path
  elements, and its first weight is 0; and for a non-empty collection with unique
  identifiers a tour is returned.
\<close>

theorem weights_length_and_first:
  "(\<forall>t. nearestNeighbor d cities start_id = Some (Inr t) \<longrightarrow>
        length (weights t) = length (path t) \<and> weights t \<noteq> [] \<and> weights t ! 0 = 0) \<and>
   (cities \<noteq> [] \<and> distinct (map id_n cities) \<and>
    (\<forall>a\<in>set cities. \<forall>b\<in>set cities. d a b \<noteq> - 1) \<longrightarrow>
      (\<exists>t. nearestNeighbor d cities start_id = Some (Inr t)))"
proof (intro conjI allI impI)
  fix t
  assume "nearestNeighbor d cities start_id = Some (Inr t)"
  from nearestNeighbor_Inr [OF this] obtain c0 s front where
    "reachable d cities c0 s"
    and t: "t = (tour s)\<lparr>weights := weights (tour s) @ [d (startCity s) front],
                        path := path (tour s) @ [front],
                        total_distance := total_distance (tour s) + d (startCity s) front\<rparr>"
    by blast
  then have "tour_inv s" by (simp add: reachable_tour_inv)
  with t show "length (weights t) = length (path t)" "weights t \<noteq> []" "weights t ! 0 = 0"
    by (auto simp: tour_inv_def nth_append hd_conv_nth)
next
  assume a: "cities \<noteq> [] \<and> distinct (map id_n cities) \<and>
    (\<forall>a\<in>set cities. \<forall>b\<in>set cities. d a b \<noteq> - 1)"
  then obtain c0 where "getStartCity cities start_id = Inr c0"
    using getStartCity_returns by blast
  from nearestNeighbor_run [OF this] a
  show "\<exists>t. nearestNeighbor d cities start_id = Some (Inr t)" by blast
qed

theorem weights_length_and_first_witness:
  "(\<exists>t. nearestNeighbor ex_distance ex_cities 1 = Some (Inr t) \<and>
        length (weights t) = 4 \<and> length (path t) = 4 \<and> weights t ! 0 = 0)"
proof -
  have h: "ex_cities \<noteq> [] \<and> distinct (map id_n ex_cities) \<and>
    (\<forall>a\<in>set ex_cities. \<forall>b\<in>set ex_cities. ex_distance a b \<noteq> - 1)" by code_simp
  have run: "nearestNeighbor ex_distance ex_cities 1 =
     Some (Inr \<lparr>path = [ex_A, ex_B, ex_C, ex_A], weights = [0, 3, 5, 4], total_distance = 12\<rparr>)"
    by code_simp
  from weights_length_and_first [of ex_distance ex_cities 1] h run show ?thesis by simp
qed

section \<open>The empty collection\<close>

text \<open>
  Claim C5, as the code has it. On an empty collection \<^verbatim>\<open>getStartCity\<close> finds nothing
  and falls through to \<^verbatim>\<open>*cities.begin()\<close>: the call is undefined behaviour, for
  every distance and every start identifier. No error is raised.
\<close>

theorem nearestNeighbor_empty:
  "nearestNeighbor d [] start_id = Some (Inl UndefinedBehaviour)"
  by (simp add: nearestNeighbor_def getStartCity_def)

text \<open>The claim as stated fails: the outcome is not the error \<open>EmptyCollection\<close>.\<close>

theorem nearestNeighbor_empty_counterexample:
  "nearestNeighbor ex_distance [] 1 \<noteq> Some (Inl EmptyCollection)"
  by (simp add: nearestNeighbor_def getStartCity_def)

section \<open>Start point resolution\<close>

text \<open>
  Claim C6. On a non-empty collection \<^verbatim>\<open>getStartCity\<close> returns a point of the
  collection with the requested identifier when there is one (the first such point in
  enumeration order), and the first point of the collection when there is none.
\<close>

theorem getStartCity_resolves:
  assumes "cities \<noteq> []"
  shows "(start_id \<in> id_n ` set cities \<longrightarrow>
            (\<exists>pre c post. cities = pre @ c # post \<and> id_n c = start_id \<and>
               start_id \<notin> id_n ` set pre \<and> getStartCity cities start_id = Inr c)) \<and>
         (start_id \<notin> id_n ` set cities \<longrightarrow> getStartCity cities start_id = Inr (hd cities))"
proof (intro conjI impI)
  assume "start_id \<in> id_n ` set cities"
  then show "\<exists>pre c post. cities = pre @ c # post \<and> id_n c = start_id \<and>
               start_id \<notin> id_n ` set pre \<and> getStartCity cities start_id = Inr c"
  proof (induction cities)
    case Nil
    then show ?case by simp
  next
    case (Cons a cs)
    show ?case
    proof (cases "id_n a = start_id")
      case True
      then have "a # cs = [] @ a # cs \<and> id_n a = start_id \<and> start_id \<notin> id_n ` set [] \<and>
          getStartCity (a # cs) start_id = Inr a"
        by (simp add: getStartCity_def)
      then show ?thesis by blast
    next
      case False
      with Cons.prems have "start_id \<in> id_n ` set cs" by auto
      from Cons.IH [OF this] obtain pre c post where
        *: "cs = pre @ c # post" "id_n c = start_id" "start_id \<notin> id_n ` set pre"
        "getStartCity cs start_id = Inr c"
        by blast
      from *(1,2) have "find_start cs start_id \<noteq> None"
        by (simp add: find_start_None)
      with * False have "a # cs = (a # pre) @ c # post \<and> id_n c = start_id \<and>
          start_id \<notin> id_n ` set (a # pre) \<and> getStartCity (a # cs) start_id = Inr c"
        by (auto simp: getStartCity_def split: option.splits)
      then show ?thesis by blast
    qed
  qed
next
  assume "start_id \<notin> id_n ` set cities"
  then have "find_start cities start_id = None" by (simp add: find_start_None)
  with assms show "getStartCity cities start_id = Inr (hd cities)"
    by (cases cities) (simp_all add: getStartCity_def)
qed

theorem getStartCity_resolves_witness:
  "ex_cities \<noteq> [] \<and> getStartCity ex_cities 2 = Inr ex_B \<and> getStartCity ex_cities 7 = Inr ex_A"
proof -
  have h: "ex_cities \<noteq> []" by (simp add: ex_cities_def)
  have "(2::size_t) \<in> id_n ` set ex_cities" "(7::size_t) \<notin> id_n ` set ex_cities"
    by code_simp+
  moreover have "getStartCity ex_cities 2 = Inr ex_B" by code_simp
  moreover have "hd ex_cities = ex_A" by (simp add: ex_cities_def)
  ultimately show ?thesis
    using h getStartCity_resolves [OF h, of 2] getStartCity_resolves [OF h, of 7] by simp
qed

section \<open>A single point\<close>

text \<open>
  Claim C9. For a collection of exactly one point \<open>p\<close>, started at its identifier, the
  tour is \<open>[p, p]\<close> with weights \<open>[0, 0]\<close> and total distance 0. The second weight is
  the distance from \<open>p\<close> to itself, which the distance of the header is assumed to
  return as 0.
\<close>

theorem nearestNeighbor_single:
  assumes "d p p = 0"
  shows "nearestNeighbor d [p] (id_n p) =
           Some (Inr \<lparr>path = [p, p], weights = [0, 0], total_distance = 0\<rparr>)"
proof -
  have "\<not> loop_cond [p] (loop_init p)"
    by (simp add: loop_cond_def loop_init_def subscript_def Mapping.size_def)
  then have "greedy_loop d [p] (loop_init p) = Some (loop_init p)"
    by (subst greedy_loop.simps) simp
  with assms show ?thesis
    by (simp add: nearestNeighbor_def getStartCity_def close_tour_def loop_init_def
        Tour_default_def)
qed

theorem nearestNeighbor_single_witness:
  "ex_distance ex_A ex_A = 0 \<and>
   nearestNeighbor ex_distance [ex_A] 1 =
     Some (Inr \<lparr>path = [ex_A, ex_A], weights = [0, 0], total_distance = 0\<rparr>)"
proof -
  have h: "ex_distance ex_A ex_A = 0" by code_simp
  have "id_n ex_A = 1" by (simp add: ex_A_def)
  with h nearestNeighbor_single [of ex_distance ex_A, OF h] show ?thesis by simp
qed

section \<open>The visited map and the path\<close>




section \<open>Skipping the metadata\<close>

lemma find_at_ge: "find_at i line str = Some j \<Longrightarrow> i \<le> j"
  by (induction i line str rule: find_at.induct) (auto split: if_splits)

lemma find_str_0: "find_str line str = Some 0 \<longleftrightarrow> starts_with str line"
proof (cases line)
  case Nil
  then show ?thesis by (auto simp: find_str_def starts_with_def)
next
  case (Cons c cs)
  have "find_at (Suc 0) cs str \<noteq> Some 0"
    using find_at_ge [of "Suc 0" cs str 0] by auto
  with Cons show ?thesis by (simp add: find_str_def starts_with_def)
qed

lemma keep_skipping_iff: "keep_skipping line \<longleftrightarrow> \<not> starts_with marker line"
  by (simp add: keep_skipping_def find_str_0 marker_def)

lemma keep_skipping_Nil: "keep_skipping []"
  by (simp add: keep_skipping_iff starts_with_def marker_def)

text \<open>Once the stream is exhausted, \<^verbatim>\<open>getline\<close> changes nothing any more.\<close>

lemma skip_metadata_stuck:
  assumes "eofbit fin \<or> failbit fin" and "keep_skipping line"
  shows "skip_metadata fin line = None"
proof (rule ccontr)
  assume "skip_metadata fin line \<noteq> None"
  then obtain r where run: "skip_metadata fin line = Some r" by blast
  have "(eofbit fin \<or> failbit fin) \<and> keep_skipping line \<longrightarrow> False"
  proof (rule skip_metadata.raw_induct
      [where P = "\<lambda>fin line r. (eofbit fin \<or> failbit fin) \<and> keep_skipping line \<longrightarrow> False",
        OF _ run], goal_cases)
    case (1 f fin line r)
    show ?case
    proof
      assume a: "(eofbit fin \<or> failbit fin) \<and> keep_skipping line"
      then have g: "getline fin line = (fin\<lparr>failbit := True\<rparr>, line)"
        by (auto simp: getline_def)
      with a 1(2) have "f (fin\<lparr>failbit := True\<rparr>) line = Some r" by simp
      from 1(1) [OF this] a show False by simp
    qed
  qed
  with assms show False by blast
qed

lemma getline_line:
  assumes "\<not> eofbit fin" "\<not> failbit fin" "buf fin = l @ newline # rest" "newline \<notin> set l"
  shows "getline fin line = (fin\<lparr>buf := rest\<rparr>, l)"
proof -
  from assms(4) have nl: "\<And>c. c \<in> set l \<Longrightarrow> c \<noteq> newline" by auto
  then have "takeWhile (\<lambda>c. c \<noteq> newline) (l @ newline # rest) = l"
    "dropWhile (\<lambda>c. c \<noteq> newline) (l @ newline # rest) = newline # rest"
    by (simp_all add: takeWhile_append2 dropWhile_append2)
  with assms(1-3) show ?thesis by (simp add: getline_def)
qed

lemma getline_last:
  assumes "\<not> eofbit fin" "\<not> failbit fin" "buf fin = l" "newline \<notin> set l"
  shows "getline fin line = (fin\<lparr>buf := [], eofbit := True, failbit := (l = [])\<rparr>, l)"
proof -
  from assms(4) have nl: "\<And>c. c \<in> set l \<Longrightarrow> c \<noteq> newline" by auto
  then have tw: "takeWhile (\<lambda>c. c \<noteq> newline) l = l"
    and dw: "dropWhile (\<lambda>c. c \<noteq> newline) l = []"
    by simp_all
  from assms(1-3) show ?thesis by (simp add: getline_def tw dw)
qed

lemma skip_metadata_no_marker:
  assumes "\<forall>l\<in>set ls. newline \<notin> set l \<and> \<not> starts_with marker l"
    and "newline \<notin> set lastl" "\<not> starts_with marker lastl"
    and "\<not> eofbit fin" "\<not> failbit fin" "buf fin = unlines ls @ lastl"
  shows "skip_metadata fin line = None"
  using assms
proof (induction ls arbitrary: fin line)
  case Nil
  then have g: "getline fin line = (fin\<lparr>buf := [], eofbit := True, failbit := (lastl = [])\<rparr>, lastl)"
    by (intro getline_last) (simp_all add: unlines_def)
  from Nil have k: "keep_skipping lastl" by (simp add: keep_skipping_iff)
  then have "skip_metadata (fin\<lparr>buf := [], eofbit := True, failbit := (lastl = [])\<rparr>) lastl = None"
    by (intro skip_metadata_stuck) simp_all
  with g k show ?case by (subst skip_metadata.simps) simp
next
  case (Cons l ls)
  then have g: "getline fin line = (fin\<lparr>buf := unlines ls @ lastl\<rparr>, l)"
    by (intro getline_line) (simp_all add: unlines_def)
  from Cons.prems have k: "keep_skipping l" by (simp add: keep_skipping_iff)
  from Cons.prems have "skip_metadata (fin\<lparr>buf := unlines ls @ lastl\<rparr>) l = None"
    by (intro Cons.IH) simp_all
  with g k show ?case by (subst skip_metadata.simps) simp
qed

lemma skip_metadata_marker:
  assumes "\<forall>l\<in>set ls. newline \<notin> set l \<and> \<not> starts_with marker l"
    and "newline \<notin> set m" "starts_with marker m"
    and "\<not> eofbit fin" "\<not> failbit fin"
    and "buf fin = unlines ls @ m @ newline # rest"
  shows "skip_metadata fin line = Some (fin\<lparr>buf := rest\<rparr>, m)"
  using assms
proof (induction ls arbitrary: fin line)
  case Nil
  then have k: "\<not> keep_skipping m" by (simp add: keep_skipping_iff)
  from Nil have "getline fin line = (fin\<lparr>buf := rest\<rparr>, m)"
    by (intro getline_line) (simp_all add: unlines_def)
  with k show ?case by (subst skip_metadata.simps) simp
next
  case (Cons l ls)
  then have k: "keep_skipping l" by (simp add: keep_skipping_iff)
  from Cons.prems have g: "getline fin line = (fin\<lparr>buf := unlines ls @ m @ newline # rest\<rparr>, l)"
    by (intro getline_line) (simp_all add: unlines_def)
  from Cons.prems have "skip_metadata (fin\<lparr>buf := unlines ls @ m @ newline # rest\<rparr>) l =
      Some (fin\<lparr>buf := unlines ls @ m @ newline # rest\<rparr>\<lparr>buf := rest\<rparr>, m)"
    by (intro Cons.IH) simp_all
  with g k show ?case by (subst skip_metadata.simps) simp
qed

lemma skip_metadata_marker_last:
  assumes "\<forall>l\<in>set ls. newline \<notin> set l \<and> \<not> starts_with marker l"
    and "newline \<notin> set m" "starts_with marker m"
    and "\<not> eofbit fin" "\<not> failbit fin"
    and "buf fin = unlines ls @ m"
  shows "skip_metadata fin line = Some (fin\<lparr>buf := [], eofbit := True\<rparr>, m)"
  using assms
proof (induction ls arbitrary: fin line)
  case Nil
  then have k: "\<not> keep_skipping m" by (simp add: keep_skipping_iff)
  from Nil have "m \<noteq> []" by (auto simp: starts_with_def marker_def)
  moreover from Nil
  have "getline fin line = (fin\<lparr>buf := [], eofbit := True, failbit := (m = [])\<rparr>, m)"
    by (intro getline_last) (simp_all add: unlines_def)
  ultimately have "getline fin line = (fin\<lparr>buf := [], eofbit := True\<rparr>, m)"
    using Nil by simp
  with k show ?case by (subst skip_metadata.simps) simp
next
  case (Cons l ls)
  then have k: "keep_skipping l" by (simp add: keep_skipping_iff)
  from Cons.prems have g: "getline fin line = (fin\<lparr>buf := unlines ls @ m\<rparr>, l)"
    by (intro getline_line) (simp_all add: unlines_def)
  from Cons.prems have "skip_metadata (fin\<lparr>buf := unlines ls @ m\<rparr>) l =
      Some (fin\<lparr>buf := unlines ls @ m\<rparr>\<lparr>buf := [], eofbit := True\<rparr>, m)"
    by (intro Cons.IH) simp_all
  with g k show ?case by (subst skip_metadata.simps) simp
qed

section \<open>Reading the records\<close>

text \<open>
  The streams on which extraction agrees with the reading of fields from the text:
  not failed, and with nothing left to read once \<open>eofbit\<close> is set.
\<close>

lemma extraction_failed:
  "failbit fin \<Longrightarrow> failbit (fst (extraction get fin)) \<and> snd (extraction get fin) = None"
  by (simp add: extraction_def)

lemma extraction_field_None:
  assumes "\<not> failbit fin" "eofbit fin \<longrightarrow> buf fin = []" "field get (buf fin) = None"
  shows "failbit (fst (extraction get fin)) \<and> snd (extraction get fin) = None"
  using assms
  by (auto simp: extraction_def field_def Let_def split: prod.splits option.splits if_splits)

lemma extraction_field_Some:
  assumes "\<not> failbit fin" "eofbit fin \<longrightarrow> buf fin = []" "field get (buf fin) = Some (v, rest)"
  shows "extraction get fin = (fin\<lparr>buf := rest, eofbit := (rest = []), failbit := False\<rparr>, Some v)"
proof -
  from assms(3) have "buf fin \<noteq> []" by (auto simp: field_def)
  with assms(2) have "\<not> eofbit fin" by blast
  with assms(1,3) show ?thesis
    by (auto simp: extraction_def field_def Let_def split: prod.splits option.splits if_splits)
qed

lemma extract_node_failed:
  "failbit (fst (extraction get_coord (fst (extraction get_coord (fst (extraction get_id fin)))))) \<Longrightarrow>
     snd (extract_node get_id get_coord fin) = None"
  by (auto simp: extract_node_def split: prod.splits)

lemma extract_node_None:
  assumes "\<not> failbit fin" "eofbit fin \<longrightarrow> buf fin = []"
    and "triple get_id get_coord (buf fin) = None"
  shows "snd (extract_node get_id get_coord fin) = None"
proof -
  have "failbit (fst (extraction get_coord
      (fst (extraction get_coord (fst (extraction get_id fin))))))"
  proof (cases "field get_id (buf fin)")
    case None
    from extraction_field_None [OF assms(1,2) None]
    have "failbit (fst (extraction get_id fin))" by simp
    then have "failbit (fst (extraction get_coord (fst (extraction get_id fin))))"
      by (simp add: extraction_failed)
    then have "failbit (fst (extraction get_coord
        (fst (extraction get_coord (fst (extraction get_id fin))))))"
      by (simp add: extraction_failed)
    then show ?thesis .
  next
    case (Some p)
    then obtain i r1 where f1: "field get_id (buf fin) = Some (i, r1)" by (cases p) simp
    let ?fin1 = "fin\<lparr>buf := r1, eofbit := (r1 = []), failbit := False\<rparr>"
    from extraction_field_Some [OF assms(1,2) f1]
    have e1: "extraction get_id fin = (?fin1, Some i)" .
    have ok1: "\<not> failbit ?fin1" "eofbit ?fin1 \<longrightarrow> buf ?fin1 = []" by simp_all
    show ?thesis
    proof (cases "field get_coord r1")
      case None
      then have "field get_coord (buf ?fin1) = None" by simp
      from extraction_field_None [OF ok1 this]
      have "failbit (fst (extraction get_coord ?fin1))" by simp
      then have "failbit (fst (extraction get_coord (fst (extraction get_coord ?fin1))))"
        by (simp add: extraction_failed)
      with e1 show ?thesis by simp
    next
      case (Some q)
      then obtain a r2 where f2: "field get_coord (buf ?fin1) = Some (a, r2)" by (cases q) simp
      let ?fin2 = "?fin1\<lparr>buf := r2, eofbit := (r2 = []), failbit := False\<rparr>"
      from extraction_field_Some [OF ok1 f2]
      have e2: "extraction get_coord ?fin1 = (?fin2, Some a)" .
      have ok2: "\<not> failbit ?fin2" "eofbit ?fin2 \<longrightarrow> buf ?fin2 = []" by simp_all
      from assms(3) f1 f2 have "field get_coord (buf ?fin2) = None"
        by (auto simp: triple_def split: option.splits prod.splits)
      from extraction_field_None [OF ok2 this]
      have "failbit (fst (extraction get_coord ?fin2))" by simp
      with e1 e2 show ?thesis by simp
    qed
  qed
  then show ?thesis by (rule extract_node_failed)
qed

lemma extract_node_Some:
  assumes "\<not> failbit fin" "eofbit fin \<longrightarrow> buf fin = []"
    and "triple get_id get_coord (buf fin) = Some (n, rest)"
  shows "extract_node get_id get_coord fin =
           (fin\<lparr>buf := rest, eofbit := (rest = []), failbit := False\<rparr>, Some n)"
proof -
  from assms(3) obtain i r1 a r2 b where
    f1: "field get_id (buf fin) = Some (i, r1)" and f2: "field get_coord r1 = Some (a, r2)"
    and f3: "field get_coord r2 = Some (b, rest)" and n: "n = \<lparr>id_n = i, x = a, y = b\<rparr>"
    by (auto simp: triple_def split: option.splits)
  let ?fin1 = "fin\<lparr>buf := r1, eofbit := (r1 = []), failbit := False\<rparr>"
  let ?fin2 = "?fin1\<lparr>buf := r2, eofbit := (r2 = []), failbit := False\<rparr>"
  from extraction_field_Some [OF assms(1,2) f1]
  have e1: "extraction get_id fin = (?fin1, Some i)" .
  have "extraction get_coord ?fin1 = (?fin2, Some a)"
    by (rule extraction_field_Some) (simp_all add: f2)
  moreover have "extraction get_coord ?fin2 =
      (?fin2\<lparr>buf := rest, eofbit := (rest = []), failbit := False\<rparr>, Some b)"
    by (rule extraction_field_Some) (simp_all add: f3)
  ultimately show ?thesis using e1 n by (simp add: extract_node_def)
qed

lemma read_nodes_records:
  assumes "records get_id get_coord b ns"
  shows "\<not> failbit fin \<Longrightarrow> (eofbit fin \<longrightarrow> buf fin = []) \<Longrightarrow> buf fin = b \<Longrightarrow>
           read_nodes get_id get_coord fin cities = Some (cities @ ns)"
  using assms
proof (induction arbitrary: fin cities rule: records.induct)
  case (none_left b)
  then have "snd (extract_node get_id get_coord fin) = None"
    by (intro extract_node_None) simp_all
  then show ?case by (subst read_nodes.simps) simp
next
  case (one_more b n rest ns)
  from one_more.hyps(1) have "b \<noteq> []"
    by (auto simp: triple_def field_def split: option.splits)
  with one_more.prems have "\<not> eofbit fin" by auto
  moreover from one_more have e: "extract_node get_id get_coord fin =
           (fin\<lparr>buf := rest, eofbit := (rest = []), failbit := False\<rparr>, Some n)"
    by (intro extract_node_Some) simp_all
  moreover have "read_nodes get_id get_coord
      (fin\<lparr>buf := rest, eofbit := (rest = []), failbit := False\<rparr>) (cities @ [n]) =
      Some ((cities @ [n]) @ ns)"
    by (rule one_more.IH) simp_all
  ultimately show ?case by (subst read_nodes.simps) simp
qed

lemma field_shorter:
  assumes "consuming get" "field get b = Some (v, rest)"
  shows "length rest < length b"
proof -
  from assms(2) have "get (dropWhile isspace b) = (Some v, rest)"
    by (auto simp: field_def Let_def split: if_splits prod.splits option.splits)
  with assms(1) have "length rest < length (dropWhile isspace b)"
    by (auto simp: consuming_def)
  also have "\<dots> \<le> length b" by (rule length_dropWhile_le)
  finally show ?thesis .
qed

lemma triple_shorter:
  assumes "consuming get_id" "consuming get_coord" "triple get_id get_coord b = Some (n, rest)"
  shows "length rest < length b"
proof -
  from assms(3) obtain i r1 a r2 c where
    "field get_id b = Some (i, r1)" "field get_coord r1 = Some (a, r2)"
    "field get_coord r2 = Some (c, rest)"
    by (auto simp: triple_def split: option.splits)
  with assms(1,2) have "length r1 < length b" "length r2 < length r1" "length rest < length r2"
    by (auto dest: field_shorter)
  then show ?thesis by simp
qed

lemma records_exist:
  assumes "consuming get_id" "consuming get_coord"
  shows "\<exists>ns. records get_id get_coord b ns"
proof (induction "length b" arbitrary: b rule: less_induct)
  case less
  show ?case
  proof (cases "triple get_id get_coord b")
    case None
    then show ?thesis by (blast intro: records.none_left)
  next
    case (Some p)
    then obtain n rest where t: "triple get_id get_coord b = Some (n, rest)" by (cases p) simp
    with assms have "length rest < length b" by (rule triple_shorter)
    then obtain ns where "records get_id get_coord rest ns" using less by blast
    with t show ?thesis by (blast intro: records.one_more)
  qed
qed

section \<open>The conversions of the examples\<close>

lemma ex_digits_consuming:
  assumes "ex_digits b = (Some v, rest)"
  shows "length rest < length b"
proof -
  let ?P = "\<lambda>c. c \<in> set ''0123456789''"
  from assms have ne: "takeWhile ?P b \<noteq> []" and rest: "rest = dropWhile ?P b"
    by (auto simp: ex_digits_def Let_def split: if_splits)
  have "length (takeWhile ?P b) + length (dropWhile ?P b) = length b"
    by (metis length_append takeWhile_dropWhile_id)
  with ne rest show ?thesis by (cases "takeWhile ?P b") auto
qed

lemma consuming_ex_get_id: "consuming ex_get_id"
  by (auto simp: consuming_def ex_get_id_def split: prod.splits dest: ex_digits_consuming)

lemma consuming_ex_get_coord: "consuming ex_get_coord"
  by (auto simp: consuming_def ex_get_coord_def split: prod.splits dest: ex_digits_consuming)

section \<open>Files without a marker line\<close>

text \<open>
  Claim C7. The claim wants \<^verbatim>\<open>constructCities\<close> to terminate with an empty collection
  on a file that has no marker line. The code does not: the \<^verbatim>\<open>do\<close> loop has no test
  for the end of the file, so once the stream is exhausted it calls \<^verbatim>\<open>getline\<close> again
  and again, and the function never returns. Evaluated here on a file of two lines,
  neither of which begins with the marker.
\<close>

theorem constructCities_no_marker_never_returns:
  "constructCities ex_get_id ex_get_coord (Some ex_file_no_marker) = None \<and>
   constructCities ex_get_id ex_get_coord (Some ex_file_no_marker) \<noteq> Some (Inr [])"
proof -
  have "skip_metadata (open_file ex_file_no_marker) [] = None"
  proof (rule skip_metadata_no_marker [where ls = "[''NAME: three'', ''1 0 0'']" and lastl = "[]"])
    show "\<forall>l\<in>set [''NAME: three'', ''1 0 0'']. newline \<notin> set l \<and> \<not> starts_with marker l"
      by (simp add: newline_def starts_with_def marker_def)
  qed (simp_all add: open_file_def ex_file_no_marker_def starts_with_def marker_def)
  then show ?thesis by (simp add: constructCities_def)
qed

section \<open>Reading a file\<close>

text \<open>
  Claim C8, as the code has it. Take a file made of lines that do not begin with the
  marker, then a line \<open>m\<close> that does, then the text \<open>rest\<close>. \<^verbatim>\<open>constructCities\<close>
  returns, and what it returns are the records of \<open>rest\<close> in the order of the file:
  triples of whitespace-separated fields, read until one fails to parse or the file
  ends. Whitespace includes the newline, so a record may spread over several lines.
  When the file ends with the line \<open>m\<close>, the collection is empty. The conversions of
  the standard library are parameters, of which only this is assumed: a successful
  conversion consumes at least one character.
\<close>

theorem constructCities_reads_records:
  assumes "\<forall>l\<in>set preamble. newline \<notin> set l \<and> \<not> starts_with marker l"
    and "starts_with marker m" and "newline \<notin> set m"
    and "consuming get_id" and "consuming get_coord"
  shows "(\<exists>cities. records get_id get_coord rest cities \<and>
            constructCities get_id get_coord (Some (unlines preamble @ m @ newline # rest)) =
              Some (Inr cities)) \<and>
         constructCities get_id get_coord (Some (unlines preamble @ m)) = Some (Inr [])"
proof (intro conjI)
  let ?fin = "open_file (unlines preamble @ m @ newline # rest)"
  from assms(4,5) obtain cities where r: "records get_id get_coord rest cities"
    using records_exist by blast
  have "skip_metadata ?fin [] = Some (?fin\<lparr>buf := rest\<rparr>, m)"
    using assms(1,3,2) by (rule skip_metadata_marker) (simp_all add: open_file_def)
  moreover from r have "read_nodes get_id get_coord (?fin\<lparr>buf := rest\<rparr>) [] = Some ([] @ cities)"
    by (rule read_nodes_records) (simp_all add: open_file_def)
  ultimately have "constructCities get_id get_coord (Some (unlines preamble @ m @ newline # rest)) =
           Some (Inr cities)"
    by (simp add: constructCities_def)
  with r show "\<exists>cities. records get_id get_coord rest cities \<and>
            constructCities get_id get_coord (Some (unlines preamble @ m @ newline # rest)) =
              Some (Inr cities)"
    by blast
next
  let ?fin = "open_file (unlines preamble @ m)"
  have "skip_metadata ?fin [] = Some (?fin\<lparr>buf := [], eofbit := True\<rparr>, m)"
    using assms(1,3,2) by (rule skip_metadata_marker_last) (simp_all add: open_file_def)
  moreover have "read_nodes get_id get_coord (?fin\<lparr>buf := [], eofbit := True\<rparr>) [] = Some []"
    by (subst read_nodes.simps) simp
  ultimately show "constructCities get_id get_coord (Some (unlines preamble @ m)) = Some (Inr [])"
    by (simp add: constructCities_def)
qed

theorem constructCities_reads_records_witness:
  "constructCities ex_get_id ex_get_coord (Some ex_file) = Some (Inr [ex_A, ex_B, ex_C]) \<and>
   records ex_get_id ex_get_coord (unlines [''1 0 0'', ''2 0'', ''3'', ''3 4 0'', ''EOF''])
     [ex_A, ex_B, ex_C]"
proof -
  have h1: "\<forall>l\<in>set [''NAME: three'']. newline \<notin> set l \<and> \<not> starts_with marker l"
    by (simp add: newline_def starts_with_def marker_def)
  have h2: "starts_with marker ''NODE_COORD_SECTION''"
    by (simp add: starts_with_def marker_def)
  have h3: "newline \<notin> set ''NODE_COORD_SECTION''"
    by (simp add: newline_def)
  have shape: "ex_file = unlines [''NAME: three''] @ ''NODE_COORD_SECTION'' @
      newline # unlines [''1 0 0'', ''2 0'', ''3'', ''3 4 0'', ''EOF'']"
    by (simp add: ex_file_def unlines_def)
  have run: "constructCities ex_get_id ex_get_coord (Some ex_file) = Some (Inr [ex_A, ex_B, ex_C])"
    by code_simp
  from constructCities_reads_records [OF h1 h2 h3 consuming_ex_get_id consuming_ex_get_coord,
      of "unlines [''1 0 0'', ''2 0'', ''3'', ''3 4 0'', ''EOF'']"]
  show ?thesis
    unfolding shape [symmetric] run by auto
qed

text \<open>
  The claim as stated fails on a file whose marker is not at the start of its line:
  the line contains the token (at position 1), the \<^verbatim>\<open>do\<close> loop goes past it, and
  \<^verbatim>\<open>constructCities\<close> does not return.
\<close>

theorem constructCities_indented_marker_counterexample:
  "find_str '' NODE_COORD_SECTION'' ''NODE_COORD_SECTION'' = Some 1 \<and>
   constructCities ex_get_id ex_get_coord (Some ex_file_indented) = None"
proof -
  have "skip_metadata (open_file ex_file_indented) [] = None"
  proof (rule skip_metadata_no_marker
      [where ls = "['' NODE_COORD_SECTION'', ''1 0 0'']" and lastl = "[]"])
    show "\<forall>l\<in>set ['' NODE_COORD_SECTION'', ''1 0 0'']. newline \<notin> set l \<and> \<not> starts_with marker l"
      by (simp add: newline_def starts_with_def marker_def)
  qed (simp_all add: open_file_def ex_file_indented_def starts_with_def marker_def)
  moreover have "find_str '' NODE_COORD_SECTION'' ''NODE_COORD_SECTION'' = Some 1"
    by (simp add: find_str_def)
  ultimately show ?thesis by (simp add: constructCities_def)
qed

end
